theory Spec2Isabelle
  imports Main "HOL-Library.Word"
begin

section \<open>Protocol constants\<close>

text \<open>
  \<^verbatim>\<open>seata-tcp-buffer.ts\<close> reads three constants from \<^verbatim>\<open>protocol-constants\<close>:
  \<^verbatim>\<open>prot.V1_HEAD_LENGTH\<close>, \<^verbatim>\<open>prot.MAGIC_HIGH\<close> and \<^verbatim>\<open>prot.MAGIC_LOW\<close>. Their values
  are not fixed by the decoder, so they are a parameter of every definition below.
\<close>

record prot =
  V1_HEAD_LENGTH :: nat
  MAGIC_HIGH :: "8 word"
  MAGIC_LOW :: "8 word"

text \<open>The constants of the specification's end-to-end example.\<close>

definition example_prot :: prot where
  "example_prot = \<lparr>V1_HEAD_LENGTH = 7, MAGIC_HIGH = 0xDA, MAGIC_LOW = 0xDA\<rparr>"

text \<open>Constants with two different marker bytes, the header length as above.\<close>

definition distinct_prot :: prot where
  "distinct_prot = \<lparr>V1_HEAD_LENGTH = 7, MAGIC_HIGH = 0xDA, MAGIC_LOW = 0xBB\<rparr>"

section \<open>The byte accumulator\<close>

text \<open>
  Modelled from the spec: the class \<^verbatim>\<open>ByteBuffer\<close> of \<^verbatim>\<open>seata-common/byte-buffer\<close>, of
  which \<^verbatim>\<open>receive\<close> calls \<^verbatim>\<open>writeBytes\<close>, \<^verbatim>\<open>getLength\<close>, \<^verbatim>\<open>indexOf\<close>, \<^verbatim>\<open>readInt\<close> and
  \<^verbatim>\<open>splice\<close>. The store is the ordered sequence of its octets. Offsets and counts are
  \<^typ>\<open>int\<close> because \<^verbatim>\<open>indexOf\<close> answers \<open>-1\<close> for a byte that does not occur and
  \<^verbatim>\<open>receive\<close> computes with that value.
\<close>

type_synonym ByteBuffer = "8 word list"

datatype error = RangeError

text \<open>Modelled from the spec: \<^verbatim>\<open>append(chunk)\<close> concatenates the chunk to the tail.\<close>

definition writeBytes :: "ByteBuffer \<Rightarrow> 8 word list \<Rightarrow> ByteBuffer" where
  "writeBytes b data = b @ data"

text \<open>Modelled from the spec: \<^verbatim>\<open>length()\<close> is the current byte count.\<close>

definition getLength :: "ByteBuffer \<Rightarrow> int" where
  "getLength b = int (length b)"

text \<open>
  Modelled from the spec: \<^verbatim>\<open>indexOf(byteValue)\<close> is the lowest index of the first
  occurrence, or the sentinel \<open>-1\<close> that \<^verbatim>\<open>receive\<close> compares against.
\<close>

fun indexOf :: "ByteBuffer \<Rightarrow> 8 word \<Rightarrow> int" where
  "indexOf [] v = - 1"
| "indexOf (x # xs) v =
     (if x = v then 0
      else (let i = indexOf xs v in if i = - 1 then - 1 else i + 1))"

text \<open>
  Modelled from the spec: \<^verbatim>\<open>readUint32BE(offset)\<close>, the call
  \<^verbatim>\<open>readInt({ unsigned: true, index })\<close> of the source: the four bytes from \<open>index\<close> as a
  big-endian unsigned number, nothing removed; a fault when \<open>index + 4\<close> exceeds the
  byte count.
\<close>

definition readInt :: "ByteBuffer \<Rightarrow> nat \<Rightarrow> error + int" where
  "readInt b index =
     (if index + 4 > length b then Inl RangeError
      else Inr (int (((unat (b ! index) * 256 + unat (b ! (index + 1))) * 256
                        + unat (b ! (index + 2))) * 256 + unat (b ! (index + 3)))))"

text \<open>
  Modelled from the spec: \<^verbatim>\<open>take(start, count)\<close>, the call \<^verbatim>\<open>splice(start, count)\<close> of the
  source: removes \<open>count\<close> bytes beginning at \<open>start\<close> and returns them; the bytes before
  \<open>start\<close> are discarded as well; a fault when \<open>start + count\<close> exceeds the byte count.
  The result is the pair of the returned bytes and the bytes kept. The spec gives a
  negative start or count no meaning: it names no range of bytes, and the model reports
  the same fault.
\<close>

definition splice :: "ByteBuffer \<Rightarrow> int \<Rightarrow> int \<Rightarrow> error + (ByteBuffer \<times> ByteBuffer)" where
  "splice b start count =
     (if start < 0 \<or> count < 0 \<or> start + count > getLength b then Inl RangeError
      else Inr (take (nat count) (drop (nat start) b), drop (nat (start + count)) b))"

section \<open>The frame decoder\<close>

text \<open>
  The state of a \<^verbatim>\<open>SeataTcpBuffer\<close> that \<^verbatim>\<open>receive\<close> touches: the accumulator \<open>buff\<close>,
  and the effect of \<^verbatim>\<open>this.subscriber(buff)\<close>, kept as the list \<open>calls\<close> of the buffers
  the subscriber has been called with, oldest first.
\<close>

record SeataTcpBuffer =
  buff :: ByteBuffer
  calls :: "8 word list list"

text \<open>The constructor: an empty \<^verbatim>\<open>ByteBuffer\<close>, the subscriber not called yet.\<close>

definition new_SeataTcpBuffer :: SeataTcpBuffer where
  "new_SeataTcpBuffer = \<lparr>buff = [], calls = []\<rparr>"

text \<open>
  How a stretch of the loop body ends: \<open>Return\<close> is the statement \<^verbatim>\<open>return\<close>, \<open>Throw\<close> a
  fault of the accumulator that leaves \<^verbatim>\<open>receive\<close> as an exception, \<open>Continue\<close> falls
  through to the next statement.
\<close>

datatype 'a step = Return 'a | Throw error | Continue 'a

text \<open>
  Lines 78 to 98, \<^verbatim>\<open>// resolve wrong magic position\<close>: the accumulator after the block.
\<close>

definition resolve_magic :: "prot \<Rightarrow> ByteBuffer \<Rightarrow> int \<Rightarrow> int \<Rightarrow> ByteBuffer step" where
  "resolve_magic p b highMagicIndex lowMagicIndex =
     (if highMagicIndex \<noteq> 0 \<or> lowMagicIndex \<noteq> 1 then
        (case
           (if lowMagicIndex - highMagicIndex = 1 then
              (case splice b 0 highMagicIndex of
                 Inl e \<Rightarrow> Throw e
               | Inr (_, b') \<Rightarrow> Continue b')
            else
              (let maxMagicPosition = max highMagicIndex lowMagicIndex in
               if maxMagicPosition + 1 \<ge> getLength b then Return b
               else (case splice b 0 (maxMagicPosition + 1) of
                       Inl e \<Rightarrow> Throw e
                     | Inr (_, b') \<Rightarrow> Continue b')))
         of
           Continue b' \<Rightarrow>
             if getLength b' < int (V1_HEAD_LENGTH p) then Return b' else Continue b'
         | Return b' \<Rightarrow> Return b'
         | Throw e \<Rightarrow> Throw e)
      else Continue b)"

text \<open>
  Lines 100 to 104, \<^verbatim>\<open>// read full length\<close>: the length field at index 3, the splice of
  that many bytes, the call of the subscriber with them.
\<close>

definition read_full_length :: "SeataTcpBuffer \<Rightarrow> ByteBuffer \<Rightarrow> SeataTcpBuffer step" where
  "read_full_length s b =
     (case readInt b 3 of
        Inl e \<Rightarrow> Throw e
      | Inr fullLength \<Rightarrow>
          (case splice b 0 fullLength of
             Inl e \<Rightarrow> Throw e
           | Inr (frame, b') \<Rightarrow> Continue \<lparr>buff = b', calls = calls s @ [frame]\<rparr>))"

text \<open>The body of the \<^verbatim>\<open>while\<close> loop, lines 69 to 104.\<close>

definition receive_body :: "prot \<Rightarrow> SeataTcpBuffer \<Rightarrow> SeataTcpBuffer step" where
  "receive_body p s =
     (let highMagicIndex = indexOf (buff s) (MAGIC_HIGH p);
          lowMagicIndex = indexOf (buff s) (MAGIC_LOW p)
      in if highMagicIndex \<noteq> - 1 \<and> lowMagicIndex \<noteq> - 1 then Return s
         else (case resolve_magic p (buff s) highMagicIndex lowMagicIndex of
                 Throw e \<Rightarrow> Throw e
               | Return b \<Rightarrow> Return (s\<lparr>buff := b\<rparr>)
               | Continue b \<Rightarrow> read_full_length s b))"

text \<open>
  The \<^verbatim>\<open>while\<close> loop of line 68. Nothing bounds its iterations, so it is a partial
  function: \<open>None\<close> is a loop that never ends, \<open>Some (Inl e)\<close> an exception, and
  \<open>Some (Inr s)\<close> the state in which \<^verbatim>\<open>receive\<close> returns.
\<close>

partial_function (option) receive_loop ::
    "prot \<Rightarrow> SeataTcpBuffer \<Rightarrow> (error + SeataTcpBuffer) option" where
  "receive_loop p s =
     (if getLength (buff s) \<ge> int (V1_HEAD_LENGTH p) then
        (case receive_body p s of
           Return s' \<Rightarrow> Some (Inr s')
         | Throw e \<Rightarrow> Some (Inl e)
         | Continue s' \<Rightarrow> receive_loop p s')
      else Some (Inr s))"

declare receive_loop.simps [code]

text \<open>\<^verbatim>\<open>receive(data)\<close>: line 66 appends the chunk, then the loop runs.\<close>

definition receive :: "prot \<Rightarrow> SeataTcpBuffer \<Rightarrow> 8 word list \<Rightarrow> (error + SeataTcpBuffer) option" where
  "receive p s data = receive_loop p (s\<lparr>buff := writeBytes (buff s) data\<rparr>)"

text \<open>
  The transport's \<^verbatim>\<open>'data'\<close> handler calls \<^verbatim>\<open>receive\<close> once per chunk, in order; an
  exception or a loop that never ends stops the sequence.
\<close>

fun receive_all :: "prot \<Rightarrow> SeataTcpBuffer \<Rightarrow> 8 word list list \<Rightarrow> (error + SeataTcpBuffer) option" where
  "receive_all p s [] = Some (Inr s)"
| "receive_all p s (d # ds) =
     (case receive p s d of
        None \<Rightarrow> None
      | Some (Inl e) \<Rightarrow> Some (Inl e)
      | Some (Inr s') \<Rightarrow> receive_all p s' ds)"

text \<open>
  The state in which the test of line 68 is evaluated after \<open>n\<close> full iterations, when the
  loop runs that long: each of the \<open>n\<close> iterations passed the test and ran through line
  104. The call of the subscriber is the last statement of such an iteration, so these
  states hold every call \<^verbatim>\<open>receive\<close> makes, whether it then returns, ends with a fault
  or never ends.
\<close>

fun loop_head :: "prot \<Rightarrow> nat \<Rightarrow> SeataTcpBuffer \<Rightarrow> SeataTcpBuffer option" where
  "loop_head p 0 s = Some s"
| "loop_head p (Suc n) s =
     (if getLength (buff s) \<ge> int (V1_HEAD_LENGTH p) then
        (case receive_body p s of
           Return s' \<Rightarrow> None
         | Throw e \<Rightarrow> None
         | Continue s' \<Rightarrow> loop_head p n s')
      else None)"

section \<open>Facts about the accumulator and the loop\<close>

lemma indexOf_ge: "- 1 \<le> indexOf b v"
  by (induction b) (auto simp: Let_def)

lemma indexOf_not_found: "indexOf b v = - 1 \<longleftrightarrow> v \<notin> set b"
proof (induction b)
  case Nil
  show ?case by simp
next
  case (Cons x xs)
  have "- 1 \<le> indexOf xs v" by (rule indexOf_ge)
  with Cons show ?case by (auto simp: Let_def)
qed

lemma receive_loop_short:
  "getLength (buff s) < int (V1_HEAD_LENGTH p) \<Longrightarrow> receive_loop p s = Some (Inr s)"
  by (subst receive_loop.simps) simp

lemma receive_loop_both_found:
  assumes "MAGIC_HIGH p \<in> set (buff s)" and "MAGIC_LOW p \<in> set (buff s)"
  shows "receive_loop p s = Some (Inr s)"
proof (cases "int (V1_HEAD_LENGTH p) \<le> getLength (buff s)")
  case True
  have "receive_body p s = Return s"
    using assms by (simp add: receive_body_def indexOf_not_found Let_def)
  with True show ?thesis
    by (subst receive_loop.simps) simp
next
  case False
  then show ?thesis by (simp add: receive_loop_short)
qed

lemma splice_front_cases:
  assumes "splice b 0 n = Inr (frame, b')"
  shows "0 \<le> n" and "n \<le> getLength b" and "frame = take (nat n) b" and "b' = drop (nat n) b"
  using assms by (auto simp: splice_def split: if_splits)

text \<open>When the block of lines 78 to 98 is entered and left by falling through, line 95 has
  seen at least \<open>V1_HEAD_LENGTH\<close> bytes.\<close>

lemma resolve_magic_Continue:
  assumes "resolve_magic p b hi lo = Continue b'" and "hi \<noteq> 0 \<or> lo \<noteq> 1"
  shows "int (V1_HEAD_LENGTH p) \<le> getLength b'"
  using assms
  by (auto simp: resolve_magic_def Let_def split: if_splits sum.splits step.splits prod.splits)

lemma suffix_self: "\<exists>k. xs = drop k xs"
  by (rule exI [of _ 0]) simp

lemma suffix_drop: "\<exists>k. drop m xs = drop k xs"
  by blast

lemma resolve_magic_suffix:
  assumes "resolve_magic p b hi lo = Continue b'"
  shows "\<exists>k. b' = drop k b"
  using assms
  by (auto simp: resolve_magic_def splice_def Let_def
      split: if_splits sum.splits step.splits prod.splits
      intro: suffix_self suffix_drop)

text \<open>Lines 100 to 104 extract whatever length the field gives, as long as that many bytes
  are buffered.\<close>

lemma read_full_length_extracts:
  assumes "readInt b 3 = Inr fullLength" and "fullLength \<le> getLength b"
  shows "read_full_length s b
           = Continue \<lparr>buff = drop (nat fullLength) b, calls = calls s @ [take (nat fullLength) b]\<rparr>"
proof -
  from assms(1) have "0 \<le> fullLength" by (auto simp: readInt_def split: if_splits)
  with assms show ?thesis by (simp add: read_full_length_def splice_def)
qed

lemma read_full_length_Continue:
  assumes "read_full_length s b = Continue s'"
  shows "\<exists>frame. calls s' = calls s @ [frame] \<and> readInt b 3 = Inr (int (length frame))
           \<and> take (length frame) b = frame \<and> buff s' = drop (length frame) b"
proof -
  from assms obtain n frame b' where n: "readInt b 3 = Inr n"
    and sp: "splice b 0 n = Inr (frame, b')"
    and s': "s' = \<lparr>buff = b', calls = calls s @ [frame]\<rparr>"
    by (auto simp: read_full_length_def split: sum.splits prod.splits)
  from sp have "0 \<le> n" "n \<le> getLength b" "frame = take (nat n) b" "b' = drop (nat n) b"
    by (rule splice_front_cases)+
  then have "int (length frame) = n" "take (length frame) b = frame" "b' = drop (length frame) b"
    by (simp_all add: getLength_def)
  with n s' show ?thesis by simp
qed

text \<open>An iteration that returns has not called the subscriber.\<close>

lemma receive_body_Return: "receive_body p s = Return s' \<Longrightarrow> calls s' = calls s"
  by (auto simp: receive_body_def read_full_length_def Let_def
      split: if_splits step.splits sum.splits prod.splits)

text \<open>An iteration that goes on to the next one has called the subscriber once: with the
  bytes at some offset \<open>k\<close> of the accumulator it started from, at least \<open>V1_HEAD_LENGTH\<close>
  bytes being buffered from \<open>k\<close> on, as many of them as the length field at offset 3 from
  \<open>k\<close> says; the accumulator it leaves starts right after them.\<close>

lemma receive_body_Continue:
  assumes "receive_body p s = Continue s'"
  shows "\<exists>k frame. calls s' = calls s @ [frame]
            \<and> int (V1_HEAD_LENGTH p) \<le> getLength (drop k (buff s))
            \<and> readInt (drop k (buff s)) 3 = Inr (int (length frame))
            \<and> take (length frame) (drop k (buff s)) = frame
            \<and> buff s' = drop (k + length frame) (buff s)"
proof -
  define hi where "hi = indexOf (buff s) (MAGIC_HIGH p)"
  define lo where "lo = indexOf (buff s) (MAGIC_LOW p)"
  from assms have absent: "hi = - 1 \<or> lo = - 1"
    by (auto simp: receive_body_def Let_def hi_def lo_def split: if_splits)
  with assms obtain b where b: "resolve_magic p (buff s) hi lo = Continue b"
    and r: "read_full_length s b = Continue s'"
    by (auto simp: receive_body_def Let_def hi_def lo_def split: if_splits step.splits)
  have "- 1 \<le> hi" "- 1 \<le> lo" by (simp_all add: hi_def lo_def indexOf_ge)
  with absent have "hi \<noteq> 0 \<or> lo \<noteq> 1" by auto
  with b have len: "int (V1_HEAD_LENGTH p) \<le> getLength b" by (rule resolve_magic_Continue)
  from resolve_magic_suffix [OF b] obtain k where k: "b = drop k (buff s)" ..
  from read_full_length_Continue [OF r] obtain frame where
    f: "calls s' = calls s @ [frame]" "readInt b 3 = Inr (int (length frame))"
       "take (length frame) b = frame" "buff s' = drop (length frame) b"
    by blast
  from f(4) have "buff s' = drop (k + length frame) (buff s)"
    by (simp add: k add.commute)
  with len f(1-3) show ?thesis unfolding k by blast
qed

text \<open>The same for every state at the head of the loop.\<close>

lemma loop_head_calls:
  assumes "loop_head p n s = Some s'"
  shows "\<exists>frames. calls s' = calls s @ frames \<and> length frames = n
           \<and> (\<exists>k. buff s' = drop k (buff s))
           \<and> (\<forall>f \<in> set frames. \<exists>k. int (V1_HEAD_LENGTH p) \<le> getLength (drop k (buff s))
                 \<and> readInt (drop k (buff s)) 3 = Inr (int (length f))
                 \<and> take (length f) (drop k (buff s)) = f)"
  using assms
proof (induction n arbitrary: s)
  case 0
  then have "s' = s" by simp
  moreover have "\<exists>k. buff s = drop k (buff s)" by (rule suffix_self)
  ultimately show ?case by simp
next
  case (Suc n)
  let ?ok = "\<lambda>b f. \<exists>k. int (V1_HEAD_LENGTH p) \<le> getLength (drop k b)
                 \<and> readInt (drop k b) 3 = Inr (int (length f)) \<and> take (length f) (drop k b) = f"
  from Suc.prems obtain s1 where body: "receive_body p s = Continue s1"
    and rest: "loop_head p n s1 = Some s'"
    by (auto split: if_splits step.splits)
  from receive_body_Continue [OF body] obtain k frame where
    c: "calls s1 = calls s @ [frame]" and okf: "?ok (buff s) frame"
    and b1: "buff s1 = drop (k + length frame) (buff s)"
    by blast
  from Suc.IH [OF rest] obtain frames k' where
    fs: "calls s' = calls s1 @ frames" "length frames = n"
    and b': "buff s' = drop k' (buff s1)"
    and a: "\<forall>f \<in> set frames. ?ok (buff s1) f"
    by blast
  have shift: "?ok (buff s) f" if "?ok (buff s1) f" for f
  proof -
    from that obtain j where j: "int (V1_HEAD_LENGTH p) \<le> getLength (drop j (buff s1))"
      "readInt (drop j (buff s1)) 3 = Inr (int (length f))"
      "take (length f) (drop j (buff s1)) = f"
      by blast
    have "drop j (buff s1) = drop (j + (k + length frame)) (buff s)"
      by (simp add: b1)
    with j show ?thesis by metis
  qed
  from fs c have "calls s' = calls s @ (frame # frames)" "length (frame # frames) = Suc n"
    by simp_all
  moreover have "buff s' = drop (k' + (k + length frame)) (buff s)" by (simp add: b' b1)
  then have "\<exists>k. buff s' = drop k (buff s)" by blast
  moreover from okf a shift have "\<forall>f \<in> set (frame # frames). ?ok (buff s) f" by simp
  ultimately show ?case by blast
qed

text \<open>A call that ends with a fault after one buffer has been passed on: the state at the
  head of the second iteration holds that buffer.\<close>

lemma loop_head_before_fault:
  "loop_head example_prot (Suc 0)
       \<lparr>buff = [1, 1, 1, 0, 0, 0, 7, 1, 1, 1, 0, 0, 0, 9], calls = []\<rparr>
     = Some \<lparr>buff = [1, 1, 1, 0, 0, 0, 9], calls = [[1, 1, 1, 0, 0, 0, 7]]\<rparr>
   \<and> receive example_prot new_SeataTcpBuffer [1, 1, 1, 0, 0, 0, 7, 1, 1, 1, 0, 0, 0, 9]
       = Some (Inl RangeError)"
  by (simp add: receive_def receive_loop.simps receive_body_def resolve_magic_def
      read_full_length_def readInt_def splice_def getLength_def writeBytes_def
      example_prot_def new_SeataTcpBuffer_def Let_def)

text \<open>When the loop returns, the subscriber has been called as in one of those states; when
  it ends with a fault, the fault is raised by the iteration that starts in one of them,
  before that iteration calls the subscriber.\<close>

lemma receive_loop_loop_head:
  assumes "receive_loop p s = Some r"
  shows "\<exists>n s1. loop_head p n s = Some s1 \<and>
           (case r of
              Inr s' \<Rightarrow> calls s' = calls s1
            | Inl e \<Rightarrow> int (V1_HEAD_LENGTH p) \<le> getLength (buff s1) \<and> receive_body p s1 = Throw e)"
proof -
  let ?P = "\<lambda>(p::prot) (s::SeataTcpBuffer) (r::error + SeataTcpBuffer).
              \<exists>n s1. loop_head p n s = Some s1 \<and>
                (case r of
                   Inr s' \<Rightarrow> calls s' = calls s1
                 | Inl e \<Rightarrow> int (V1_HEAD_LENGTH p) \<le> getLength (buff s1)
                            \<and> receive_body p s1 = Throw e)"
  show "?P p s r"
  proof (rule receive_loop.raw_induct [where P = ?P, OF _ assms])
    fix loop p s r
    assume IH: "\<And>p s r. loop p s = Some r \<Longrightarrow> ?P p s r"
      and eq: "(if int (V1_HEAD_LENGTH p) \<le> getLength (buff s) then
                  (case receive_body p s of
                     Return s' \<Rightarrow> Some (Inr s')
                   | Throw e \<Rightarrow> Some (Inl e)
                   | Continue s' \<Rightarrow> loop p s')
                else Some (Inr s)) = Some r"
    show "?P p s r"
    proof (cases "int (V1_HEAD_LENGTH p) \<le> getLength (buff s)")
      case False
      with eq have "r = Inr s" by simp
      then show ?thesis by (intro exI [of _ 0] exI [of _ s]) simp
    next
      case True
      show ?thesis
      proof (cases "receive_body p s")
        case (Return s1)
        with True eq have "r = Inr s1" by simp
        moreover from Return have "calls s1 = calls s" by (rule receive_body_Return)
        ultimately show ?thesis by (intro exI [of _ 0] exI [of _ s]) simp
      next
        case (Throw e)
        with True eq have "r = Inl e" by simp
        with True Throw show ?thesis by (intro exI [of _ 0] exI [of _ s]) simp
      next
        case (Continue s1)
        with True eq have "loop p s1 = Some r" by simp
        from IH [OF this] obtain n s2 where n: "loop_head p n s1 = Some s2"
          and r: "case r of
                    Inr s' \<Rightarrow> calls s' = calls s2
                  | Inl e \<Rightarrow> int (V1_HEAD_LENGTH p) \<le> getLength (buff s2)
                             \<and> receive_body p s2 = Throw e"
          by blast
        from n True Continue have "loop_head p (Suc n) s = Some s2" by simp
        with r show ?thesis by blast
      qed
    qed
  qed
qed

text \<open>A loop that leaves within \<open>n\<close> iterations has a result. So in a call that never ends
  there is such a state for every \<open>n\<close>.\<close>

lemma loop_head_stops:
  assumes "loop_head p n s = None"
  shows "\<exists>r. receive_loop p s = Some r"
  using assms
proof (induction n arbitrary: s)
  case 0
  then show ?case by simp
next
  case (Suc n)
  show ?case
  proof (cases "int (V1_HEAD_LENGTH p) \<le> getLength (buff s)")
    case False
    then show ?thesis by (subst receive_loop.simps) simp
  next
    case True
    show ?thesis
    proof (cases "receive_body p s")
      case (Return s1)
      with True show ?thesis by (subst receive_loop.simps) simp
    next
      case (Throw e)
      with True show ?thesis by (subst receive_loop.simps) simp
    next
      case (Continue s1)
      with True Suc.prems have "loop_head p n s1 = None" by simp
      then obtain r where "receive_loop p s1 = Some r" using Suc.IH by blast
      with True Continue show ?thesis by (subst receive_loop.simps) simp
    qed
  qed
qed

lemma receive_loop_never_ends:
  assumes "receive_loop p s = None"
  shows "\<exists>s1. loop_head p n s = Some s1"
proof (cases "loop_head p n s")
  case None
  then have "\<exists>r. receive_loop p s = Some r" by (rule loop_head_stops)
  with assms show ?thesis by simp
next
  case (Some s1)
  then show ?thesis by blast
qed

text \<open>With neither marker in the accumulator and a length field of zero, an iteration
  calls the subscriber with an empty buffer and leaves the accumulator as it was.\<close>

lemma zero_length_body:
  assumes "MAGIC_HIGH p \<notin> set (buff s)" and "MAGIC_LOW p \<notin> set (buff s)"
    and "int (V1_HEAD_LENGTH p) \<le> getLength (buff s)" and "readInt (buff s) 3 = Inr 0"
  shows "receive_body p s = Continue (s\<lparr>calls := calls s @ [[]]\<rparr>)"
proof -
  have "indexOf (buff s) (MAGIC_HIGH p) = - 1" "indexOf (buff s) (MAGIC_LOW p) = - 1"
    using assms(1,2) by (simp_all add: indexOf_not_found)
  moreover from assms(4) have "0 < getLength (buff s)"
    by (auto simp: readInt_def getLength_def split: if_splits)
  with assms(3) have "resolve_magic p (buff s) (- 1) (- 1) = Continue (buff s)"
    by (simp add: resolve_magic_def splice_def)
  ultimately show ?thesis
    using assms(4) by (simp add: receive_body_def read_full_length_def splice_def getLength_def)
qed

text \<open>From such a state the loop has no result: every iteration reaches the same
  accumulator again.\<close>

lemma zero_length_never_returns:
  assumes "MAGIC_HIGH p \<notin> set (buff s)" and "MAGIC_LOW p \<notin> set (buff s)"
    and "int (V1_HEAD_LENGTH p) \<le> getLength (buff s)" and "readInt (buff s) 3 = Inr 0"
  shows "receive_loop p s = None"
proof (rule ccontr)
  let ?stuck = "\<lambda>p s. MAGIC_HIGH p \<notin> set (buff s) \<and> MAGIC_LOW p \<notin> set (buff s)
      \<and> int (V1_HEAD_LENGTH p) \<le> getLength (buff s) \<and> readInt (buff s) 3 = Inr 0"
  assume "receive_loop p s \<noteq> None"
  then obtain r where r: "receive_loop p s = Some r" by auto
  have "\<not> ?stuck p s"
  proof (rule receive_loop.raw_induct [where P = "\<lambda>p s r. \<not> ?stuck p s", OF _ r])
    fix loop p s r
    assume IH: "\<And>p s r. loop p s = Some r \<Longrightarrow> \<not> ?stuck p s"
      and eq: "(if int (V1_HEAD_LENGTH p) \<le> getLength (buff s) then
                  (case receive_body p s of
                     Return s' \<Rightarrow> Some (Inr s')
                   | Throw e \<Rightarrow> Some (Inl e)
                   | Continue s' \<Rightarrow> loop p s')
                else Some (Inr s)) = Some r"
    show "\<not> ?stuck p s"
    proof
      assume a: "?stuck p s"
      then have "receive_body p s = Continue (s\<lparr>calls := calls s @ [[]]\<rparr>)"
        by (simp add: zero_length_body)
      with a eq have "loop p (s\<lparr>calls := calls s @ [[]]\<rparr>) = Some r" by simp
      from IH [OF this] a show False by simp
    qed
  qed
  with assms show False by simp
qed

text \<open>Once both markers are in the accumulator, no later chunk changes that: every further
  call returns at line 74.\<close>

lemma receive_all_both_found:
  assumes "MAGIC_HIGH p \<in> set (buff s)" and "MAGIC_LOW p \<in> set (buff s)"
  shows "receive_all p s chunks = Some (Inr (s\<lparr>buff := buff s @ concat chunks\<rparr>))"
  using assms
proof (induction chunks arbitrary: s)
  case Nil
  then show ?case by simp
next
  case (Cons d ds)
  let ?s1 = "s\<lparr>buff := buff s @ d\<rparr>"
  from Cons.prems have m: "MAGIC_HIGH p \<in> set (buff ?s1)" "MAGIC_LOW p \<in> set (buff ?s1)"
    by simp_all
  then have "receive_loop p ?s1 = Some (Inr ?s1)" by (rule receive_loop_both_found)
  then have "receive p s d = Some (Inr ?s1)" by (simp add: receive_def writeBytes_def)
  with Cons.IH [OF m] show ?case by simp
qed


text \<open>So a header aligned at offset 0 whose length field exceeds the buffered bytes is
  not extracted in that call, and not in any later one either.\<close>

lemma aligned_header_never_extracted:
  assumes "(buff s @ data) ! 0 = MAGIC_HIGH p" and "(buff s @ data) ! 1 = MAGIC_LOW p"
    and "readInt (buff s @ data) 3 = Inr fullLength"
    and "getLength (buff s @ data) < fullLength"
  shows "receive_all p s (data # later) = Some (Inr (s\<lparr>buff := buff s @ data @ concat later\<rparr>))"
proof -
  let ?s1 = "s\<lparr>buff := buff s @ data\<rparr>"
  from assms(3) have len: "7 \<le> length (buff s @ data)"
    by (auto simp: readInt_def split: if_splits)
  then have "(buff s @ data) ! 0 \<in> set (buff s @ data)" "(buff s @ data) ! 1 \<in> set (buff s @ data)"
    by (simp_all only: nth_mem)
  with assms(1,2) have m: "MAGIC_HIGH p \<in> set (buff ?s1)" "MAGIC_LOW p \<in> set (buff ?s1)"
    by simp_all
  then have "receive_loop p ?s1 = Some (Inr ?s1)" by (rule receive_loop_both_found)
  then have "receive p s data = Some (Inr ?s1)" by (simp add: receive_def writeBytes_def)
  with receive_all_both_found [OF m, of later] show ?thesis by simp
qed

text \<open>A frame that opens with the two markers is never handed to the subscriber, however
  its bytes are cut into chunks: every call of \<^verbatim>\<open>receive\<close> either sees fewer than
  \<open>V1_HEAD_LENGTH\<close> bytes or finds both markers and returns at line 74.\<close>

lemma receive_marked_prefix:
  assumes "2 \<le> V1_HEAD_LENGTH p" and "F ! 0 = MAGIC_HIGH p" and "F ! 1 = MAGIC_LOW p"
    and "buff s @ data @ rest = F"
  shows "receive p s data = Some (Inr (s\<lparr>buff := buff s @ data\<rparr>))"
proof (cases "int (V1_HEAD_LENGTH p) \<le> getLength (buff s @ data)")
  case False
  then show ?thesis by (simp add: receive_def writeBytes_def receive_loop_short)
next
  case True
  define b where "b = buff s @ data"
  from True assms(1) have "2 \<le> length b"
    unfolding getLength_def b_def by linarith
  then have len: "0 < length b" "1 < length b" by auto
  from assms(4) have "F = b @ rest" by (simp add: b_def)
  with len have "F ! 0 = b ! 0" "F ! 1 = b ! 1" by (simp_all add: nth_append)
  moreover from len have "b ! 0 \<in> set b" "b ! 1 \<in> set b" by (simp_all only: nth_mem)
  ultimately have "MAGIC_HIGH p \<in> set b" "MAGIC_LOW p \<in> set b"
    using assms(2,3) by simp_all
  then have "MAGIC_HIGH p \<in> set (buff (s\<lparr>buff := b\<rparr>))" "MAGIC_LOW p \<in> set (buff (s\<lparr>buff := b\<rparr>))"
    by simp_all
  then have "receive_loop p (s\<lparr>buff := b\<rparr>) = Some (Inr (s\<lparr>buff := b\<rparr>))"
    by (rule receive_loop_both_found)
  then show ?thesis by (simp add: receive_def writeBytes_def b_def)
qed

lemma wellformed_frame_never_delivered:
  assumes "2 \<le> V1_HEAD_LENGTH p" and "F ! 0 = MAGIC_HIGH p" and "F ! 1 = MAGIC_LOW p"
    and "buff s @ concat chunks = F"
  shows "receive_all p s chunks = Some (Inr (s\<lparr>buff := F\<rparr>))"
  using assms(4)
proof (induction chunks arbitrary: s)
  case Nil
  then show ?case by auto
next
  case (Cons d ds)
  from Cons.prems have "buff s @ d @ concat ds = F" by simp
  with assms(1-3) have r: "receive p s d = Some (Inr (s\<lparr>buff := buff s @ d\<rparr>))"
    by (rule receive_marked_prefix)
  from Cons.prems have "buff (s\<lparr>buff := buff s @ d\<rparr>) @ concat ds = F" by simp
  from Cons.IH [OF this] r show ?case by simp
qed

section \<open>Absent markers\<close>

text \<open>
  Claim C1 says that \<^verbatim>\<open>receive\<close> returns without calling the subscriber and without
  removing a byte when \<open>MAGIC_HIGH\<close> or \<open>MAGIC_LOW\<close> occurs nowhere in the accumulator.
  The test of line 73 is the opposite one. Here neither marker occurs in the seven bytes
  received, and \<^verbatim>\<open>receive\<close> hands all seven to the subscriber and empties the accumulator.
\<close>

theorem receive_extracts_without_magic:
  "MAGIC_HIGH example_prot \<notin> set [1, 1, 1, 0, 0, 0, 7]
   \<and> MAGIC_LOW example_prot \<notin> set [1, 1, 1, 0, 0, 0, 7]
   \<and> receive example_prot new_SeataTcpBuffer [1, 1, 1, 0, 0, 0, 7]
       = Some (Inr \<lparr>buff = [], calls = [[1, 1, 1, 0, 0, 0, 7]]\<rparr>)"
  by (simp add: receive_def receive_loop.simps receive_body_def resolve_magic_def
      read_full_length_def readInt_def splice_def getLength_def writeBytes_def
      example_prot_def new_SeataTcpBuffer_def Let_def)

section \<open>Well-formed frames\<close>

text \<open>
  Claim C2 says that a well-formed frame, cut into any number of chunks, reaches the
  subscriber exactly once. The eight-byte frame below opens with \<open>MAGIC_HIGH\<close> and
  \<open>MAGIC_LOW\<close> and carries its own length, 8, at offset 3. Received whole, in two halves or
  byte by byte, it stays in the accumulator and the subscriber is never called.
\<close>

theorem wellformed_frame_split_not_delivered:
  "readInt [0xDA, 0xBB, 1, 0, 0, 0, 8, 7] 3 = Inr 8
   \<and> receive_all distinct_prot new_SeataTcpBuffer [[0xDA, 0xBB, 1, 0, 0, 0, 8, 7]]
       = Some (Inr \<lparr>buff = [0xDA, 0xBB, 1, 0, 0, 0, 8, 7], calls = []\<rparr>)
   \<and> receive_all distinct_prot new_SeataTcpBuffer [[0xDA, 0xBB, 1, 0], [0, 0, 8, 7]]
       = Some (Inr \<lparr>buff = [0xDA, 0xBB, 1, 0, 0, 0, 8, 7], calls = []\<rparr>)
   \<and> receive_all distinct_prot new_SeataTcpBuffer [[0xDA], [0xBB], [1], [0], [0], [0], [8], [7]]
       = Some (Inr \<lparr>buff = [0xDA, 0xBB, 1, 0, 0, 0, 8, 7], calls = []\<rparr>)"
  by (simp add: receive_def receive_loop.simps receive_body_def readInt_def getLength_def
      writeBytes_def distinct_prot_def new_SeataTcpBuffer_def Let_def)

text \<open>
  Claim C3, the end-to-end example of the specification: header length 7, both markers
  \<open>0xDA\<close>, the nine-byte frame received as three bytes and then six. The subscriber is
  not called, and the nine bytes are still in the accumulator.
\<close>

theorem end_to_end_example_not_delivered:
  "receive_all example_prot new_SeataTcpBuffer [[0xDA, 0xDA, 1], [0, 0, 0, 9, 0xAB, 0xCD]]
     = Some (Inr \<lparr>buff = [0xDA, 0xDA, 1, 0, 0, 0, 9, 0xAB, 0xCD], calls = []\<rparr>)"
  by (simp add: receive_def receive_loop.simps receive_body_def getLength_def
      writeBytes_def example_prot_def new_SeataTcpBuffer_def Let_def)

section \<open>The length field\<close>

text \<open>
  Claim C4 says that every buffer the subscriber receives has at least \<open>HEADER_LENGTH\<close>
  bytes, and that a length field below \<open>HEADER_LENGTH\<close> is never extracted. The code
  reads the field and splices that many bytes without comparing it with anything: here
  the field is 3, and the subscriber is called with three bytes.
\<close>

theorem short_length_field_extracted:
  "readInt [1, 1, 1, 0, 0, 0, 3] 3 = Inr 3
   \<and> receive example_prot new_SeataTcpBuffer [1, 1, 1, 0, 0, 0, 3]
       = Some (Inr \<lparr>buff = [0, 0, 0, 3], calls = [[1, 1, 1]]\<rparr>)
   \<and> length [1, 1, 1 :: 8 word] < V1_HEAD_LENGTH example_prot"
  by (simp add: receive_def receive_loop.simps receive_body_def resolve_magic_def
      read_full_length_def readInt_def splice_def getLength_def writeBytes_def
      example_prot_def new_SeataTcpBuffer_def Let_def)

text \<open>
  Claim C4 as amended. Every buffer that \<^verbatim>\<open>receive\<close> passes to the subscriber, in a call
  that returns, ends with a fault or never ends, is a run of consecutive bytes of the
  accumulator (the previous contents followed by the chunk): it starts at some offset \<open>k\<close>
  from which at least \<open>V1_HEAD_LENGTH\<close> bytes are buffered, and it has exactly as many
  bytes as the unsigned length field at offset 3 from \<open>k\<close> says. This holds of the calls
  made in \<open>n\<close> iterations, for every \<open>n\<close>; when \<^verbatim>\<open>receive\<close> returns, its calls are those
  of one of these states; when it ends with a fault, the fault is raised by the iteration
  that starts in one of them; when it never ends, there is such a state for every \<open>n\<close>.
  Lines 100 to 104 compare the field with nothing but the number of buffered bytes:
  whenever it is at most that number, that many bytes, also fewer than \<open>V1_HEAD_LENGTH\<close>,
  are spliced off and passed to the subscriber.
\<close>

theorem delivered_buffer_sized_by_length_field:
  "(loop_head p n (s\<lparr>buff := writeBytes (buff s) data\<rparr>) = Some s1 \<longrightarrow>
      (\<exists>frames. calls s1 = calls s @ frames \<and> length frames = n
         \<and> (\<exists>k. buff s1 = drop k (buff s @ data))
         \<and> (\<forall>f \<in> set frames. \<exists>k.
               int (V1_HEAD_LENGTH p) \<le> getLength (drop k (buff s @ data))
               \<and> readInt (drop k (buff s @ data)) 3 = Inr (int (length f))
               \<and> take (length f) (drop k (buff s @ data)) = f)))
   \<and> (receive p s data = Some (Inr s') \<longrightarrow>
        (\<exists>n s1. loop_head p n (s\<lparr>buff := writeBytes (buff s) data\<rparr>) = Some s1
           \<and> calls s' = calls s1))
   \<and> (receive p s data = Some (Inl e) \<longrightarrow>
        (\<exists>n s1. loop_head p n (s\<lparr>buff := writeBytes (buff s) data\<rparr>) = Some s1
           \<and> receive_body p s1 = Throw e))
   \<and> (receive p s data = None \<longrightarrow>
        (\<exists>s1. loop_head p n (s\<lparr>buff := writeBytes (buff s) data\<rparr>) = Some s1))
   \<and> (readInt b 3 = Inr fullLength \<and> fullLength \<le> getLength b \<longrightarrow>
        read_full_length s b
          = Continue \<lparr>buff = drop (nat fullLength) b,
                       calls = calls s @ [take (nat fullLength) b]\<rparr>)"
proof (intro conjI impI)
  assume "loop_head p n (s\<lparr>buff := writeBytes (buff s) data\<rparr>) = Some s1"
  from loop_head_calls [OF this]
  show "\<exists>frames. calls s1 = calls s @ frames \<and> length frames = n
         \<and> (\<exists>k. buff s1 = drop k (buff s @ data))
         \<and> (\<forall>f \<in> set frames. \<exists>k.
               int (V1_HEAD_LENGTH p) \<le> getLength (drop k (buff s @ data))
               \<and> readInt (drop k (buff s @ data)) 3 = Inr (int (length f))
               \<and> take (length f) (drop k (buff s @ data)) = f)"
    by (simp add: writeBytes_def)
next
  assume "receive p s data = Some (Inr s')"
  then have "receive_loop p (s\<lparr>buff := writeBytes (buff s) data\<rparr>) = Some (Inr s')"
    by (simp add: receive_def)
  from receive_loop_loop_head [OF this]
  show "\<exists>n s1. loop_head p n (s\<lparr>buff := writeBytes (buff s) data\<rparr>) = Some s1
           \<and> calls s' = calls s1"
    by simp
next
  assume "receive p s data = Some (Inl e)"
  then have "receive_loop p (s\<lparr>buff := writeBytes (buff s) data\<rparr>) = Some (Inl e)"
    by (simp add: receive_def)
  from receive_loop_loop_head [OF this]
  show "\<exists>n s1. loop_head p n (s\<lparr>buff := writeBytes (buff s) data\<rparr>) = Some s1
           \<and> receive_body p s1 = Throw e"
    by auto
next
  assume "receive p s data = None"
  then have "receive_loop p (s\<lparr>buff := writeBytes (buff s) data\<rparr>) = None"
    by (simp add: receive_def)
  then show "\<exists>s1. loop_head p n (s\<lparr>buff := writeBytes (buff s) data\<rparr>) = Some s1"
    by (rule receive_loop_never_ends)
next
  assume "readInt b 3 = Inr fullLength \<and> fullLength \<le> getLength b"
  then show "read_full_length s b
          = Continue \<lparr>buff = drop (nat fullLength) b,
                       calls = calls s @ [take (nat fullLength) b]\<rparr>"
    by (simp add: read_full_length_extracts)
qed

text \<open>
  The theorem at three calls: one that returns after one buffer has been passed on, one
  that ends with a fault after one buffer has been passed on, and one that never ends;
  and at a length field of 3.
\<close>

theorem delivered_buffer_sized_by_length_field_witness:
  "receive distinct_prot new_SeataTcpBuffer [1, 1, 0xDA, 1, 1, 1, 0, 0, 0, 7, 1]
       = Some (Inr \<lparr>buff = [1], calls = [[1, 1, 1, 0, 0, 0, 7]]\<rparr>)
   \<and> (\<exists>frames. calls \<lparr>buff = [1], calls = [[1, 1, 1, 0, 0, 0, 7]]\<rparr>
                  = calls new_SeataTcpBuffer @ frames \<and> length frames = Suc 0
         \<and> (\<exists>k. buff \<lparr>buff = [1], calls = [[1, 1, 1, 0, 0, 0, 7]]\<rparr>
                  = drop k (buff new_SeataTcpBuffer @ [1, 1, 0xDA, 1, 1, 1, 0, 0, 0, 7, 1]))
         \<and> (\<forall>f \<in> set frames. \<exists>k.
               int (V1_HEAD_LENGTH distinct_prot)
                 \<le> getLength (drop k (buff new_SeataTcpBuffer @ [1, 1, 0xDA, 1, 1, 1, 0, 0, 0, 7, 1]))
               \<and> readInt (drop k (buff new_SeataTcpBuffer @ [1, 1, 0xDA, 1, 1, 1, 0, 0, 0, 7, 1])) 3
                   = Inr (int (length f))
               \<and> take (length f) (drop k (buff new_SeataTcpBuffer @ [1, 1, 0xDA, 1, 1, 1, 0, 0, 0, 7, 1]))
                   = f))
   \<and> (\<exists>n s1. loop_head distinct_prot n
                 (new_SeataTcpBuffer\<lparr>buff := writeBytes (buff new_SeataTcpBuffer)
                                                  [1, 1, 0xDA, 1, 1, 1, 0, 0, 0, 7, 1]\<rparr>) = Some s1
           \<and> calls \<lparr>buff = [1], calls = [[1, 1, 1, 0, 0, 0, 7]]\<rparr> = calls s1)
   \<and> receive example_prot new_SeataTcpBuffer [1, 1, 1, 0, 0, 0, 7, 1, 1, 1, 0, 0, 0, 9]
       = Some (Inl RangeError)
   \<and> (\<exists>n s1. loop_head example_prot n
                 (new_SeataTcpBuffer\<lparr>buff := writeBytes (buff new_SeataTcpBuffer)
                                                  [1, 1, 1, 0, 0, 0, 7, 1, 1, 1, 0, 0, 0, 9]\<rparr>) = Some s1
           \<and> receive_body example_prot s1 = Throw RangeError)
   \<and> receive example_prot new_SeataTcpBuffer [1, 1, 1, 0, 0, 0, 0] = None
   \<and> (\<exists>s1. loop_head example_prot (Suc (Suc 0))
                 (new_SeataTcpBuffer\<lparr>buff := writeBytes (buff new_SeataTcpBuffer)
                                                  [1, 1, 1, 0, 0, 0, 0]\<rparr>) = Some s1)
   \<and> readInt [1, 1, 1, 0, 0, 0, 3] 3 = Inr 3
   \<and> 3 \<le> getLength [1, 1, 1, 0, 0, 0, 3]
   \<and> read_full_length new_SeataTcpBuffer [1, 1, 1, 0, 0, 0, 3]
       = Continue \<lparr>buff = drop (nat 3) [1, 1, 1, 0, 0, 0, 3],
                    calls = calls new_SeataTcpBuffer @ [take (nat 3) [1, 1, 1, 0, 0, 0, 3]]\<rparr>"
proof -
  let ?S = "\<lparr>buff = [1], calls = [[1, 1, 1, 0, 0, 0, 7 :: 8 word]]\<rparr>"
  have head: "loop_head distinct_prot (Suc 0)
       (new_SeataTcpBuffer\<lparr>buff := writeBytes (buff new_SeataTcpBuffer)
                                        [1, 1, 0xDA, 1, 1, 1, 0, 0, 0, 7, 1]\<rparr>) = Some ?S"
    by (simp add: receive_body_def resolve_magic_def read_full_length_def readInt_def
        splice_def getLength_def writeBytes_def distinct_prot_def new_SeataTcpBuffer_def Let_def)
  have run: "receive distinct_prot new_SeataTcpBuffer [1, 1, 0xDA, 1, 1, 1, 0, 0, 0, 7, 1]
     = Some (Inr ?S)"
    by (simp add: receive_def receive_loop.simps receive_body_def resolve_magic_def
        read_full_length_def readInt_def splice_def getLength_def writeBytes_def
        distinct_prot_def new_SeataTcpBuffer_def Let_def)
  have fault: "receive example_prot new_SeataTcpBuffer [1, 1, 1, 0, 0, 0, 7, 1, 1, 1, 0, 0, 0, 9]
     = Some (Inl RangeError)"
    by (simp add: receive_def receive_loop.simps receive_body_def resolve_magic_def
        read_full_length_def readInt_def splice_def getLength_def writeBytes_def
        example_prot_def new_SeataTcpBuffer_def Let_def)
  have never: "receive example_prot new_SeataTcpBuffer [1, 1, 1, 0, 0, 0, 0] = None"
    unfolding receive_def
    by (rule zero_length_never_returns)
       (simp_all add: example_prot_def new_SeataTcpBuffer_def writeBytes_def getLength_def
          readInt_def)
  have field: "readInt [1, 1, 1, 0, 0, 0, 3] 3 = Inr 3 \<and> 3 \<le> getLength [1, 1, 1, 0, 0, 0, 3]"
    by (simp add: readInt_def getLength_def)
  note returning = delivered_buffer_sized_by_length_field
    [of distinct_prot "Suc 0" new_SeataTcpBuffer "[1, 1, 0xDA, 1, 1, 1, 0, 0, 0, 7, 1]"
        ?S ?S RangeError "[1, 1, 1, 0, 0, 0, 3]" 3]
  note faulting = delivered_buffer_sized_by_length_field
    [of example_prot 0 new_SeataTcpBuffer "[1, 1, 1, 0, 0, 0, 7, 1, 1, 1, 0, 0, 0, 9]"
        new_SeataTcpBuffer new_SeataTcpBuffer RangeError "[]" 0]
  note endless = delivered_buffer_sized_by_length_field
    [of example_prot "Suc (Suc 0)" new_SeataTcpBuffer "[1, 1, 1, 0, 0, 0, 0]"
        new_SeataTcpBuffer new_SeataTcpBuffer RangeError "[]" 0]
  from returning head run field have a: "(\<exists>frames. calls ?S
                  = calls new_SeataTcpBuffer @ frames \<and> length frames = Suc 0
         \<and> (\<exists>k. buff ?S
                  = drop k (buff new_SeataTcpBuffer @ [1, 1, 0xDA, 1, 1, 1, 0, 0, 0, 7, 1]))
         \<and> (\<forall>f \<in> set frames. \<exists>k.
               int (V1_HEAD_LENGTH distinct_prot)
                 \<le> getLength (drop k (buff new_SeataTcpBuffer @ [1, 1, 0xDA, 1, 1, 1, 0, 0, 0, 7, 1]))
               \<and> readInt (drop k (buff new_SeataTcpBuffer @ [1, 1, 0xDA, 1, 1, 1, 0, 0, 0, 7, 1])) 3
                   = Inr (int (length f))
               \<and> take (length f) (drop k (buff new_SeataTcpBuffer @ [1, 1, 0xDA, 1, 1, 1, 0, 0, 0, 7, 1]))
                   = f))"
    and b: "\<exists>n s1. loop_head distinct_prot n
                 (new_SeataTcpBuffer\<lparr>buff := writeBytes (buff new_SeataTcpBuffer)
                                                  [1, 1, 0xDA, 1, 1, 1, 0, 0, 0, 7, 1]\<rparr>) = Some s1
           \<and> calls ?S = calls s1"
    and c: "read_full_length new_SeataTcpBuffer [1, 1, 1, 0, 0, 0, 3]
       = Continue \<lparr>buff = drop (nat 3) [1, 1, 1, 0, 0, 0, 3],
                    calls = calls new_SeataTcpBuffer @ [take (nat 3) [1, 1, 1, 0, 0, 0, 3]]\<rparr>"
    by blast+
  from faulting fault have d: "\<exists>n s1. loop_head example_prot n
                 (new_SeataTcpBuffer\<lparr>buff := writeBytes (buff new_SeataTcpBuffer)
                                                  [1, 1, 1, 0, 0, 0, 7, 1, 1, 1, 0, 0, 0, 9]\<rparr>) = Some s1
           \<and> receive_body example_prot s1 = Throw RangeError"
    by blast
  from endless never have e: "\<exists>s1. loop_head example_prot (Suc (Suc 0))
                 (new_SeataTcpBuffer\<lparr>buff := writeBytes (buff new_SeataTcpBuffer)
                                                  [1, 1, 1, 0, 0, 0, 0]\<rparr>) = Some s1"
    by blast
  from run a b fault d never e field c show ?thesis by (intro conjI) simp_all
qed

text \<open>
  Claim C5 says that with a header aligned at offset 0 and a length field larger than the
  number of bytes buffered, no frame is emitted in that call, the bytes are kept, and the
  extraction is deferred until enough further bytes have arrived. Here eight bytes open
  with the two markers and announce a frame of 9 bytes. The call returns with the eight
  bytes kept and no call of the subscriber, but the extraction is never taken up: when
  the ninth byte has arrived the frame is complete and stays in the accumulator, and so it
  does whatever arrives after it.
\<close>

theorem aligned_header_extraction_never_resumes:
  "readInt [0xDA, 0xBB, 1, 0, 0, 0, 9, 5] 3 = Inr 9
   \<and> getLength [0xDA, 0xBB, 1, 0, 0, 0, 9, 5] = 8
   \<and> receive_all distinct_prot new_SeataTcpBuffer [[0xDA, 0xBB, 1, 0, 0, 0, 9, 5]]
       = Some (Inr \<lparr>buff = [0xDA, 0xBB, 1, 0, 0, 0, 9, 5], calls = []\<rparr>)
   \<and> receive_all distinct_prot new_SeataTcpBuffer [[0xDA, 0xBB, 1, 0, 0, 0, 9, 5], [6]]
       = Some (Inr \<lparr>buff = [0xDA, 0xBB, 1, 0, 0, 0, 9, 5, 6], calls = []\<rparr>)
   \<and> receive_all distinct_prot new_SeataTcpBuffer
         [[0xDA, 0xBB, 1, 0, 0, 0, 9, 5], [6], [0xDA, 0xBB, 1, 0, 0, 0, 7]]
       = Some (Inr \<lparr>buff = [0xDA, 0xBB, 1, 0, 0, 0, 9, 5, 6, 0xDA, 0xBB, 1, 0, 0, 0, 7],
                     calls = []\<rparr>)"
  by (simp add: receive_def receive_loop.simps receive_body_def readInt_def getLength_def
      writeBytes_def distinct_prot_def new_SeataTcpBuffer_def Let_def)

section \<open>Accesses to the accumulator\<close>

text \<open>
  Claim C6 says that every \<^verbatim>\<open>splice(start, count)\<close> of \<^verbatim>\<open>receive\<close> stays within the
  buffered bytes. Line 102 splices as many bytes as the length field says, whatever is
  buffered: with seven bytes buffered and a length field of 9, \<^verbatim>\<open>splice(0, 9)\<close> is out
  of range, and the loop body and \<^verbatim>\<open>receive\<close> end with the fault.
\<close>

theorem splice_beyond_buffered_bytes:
  "getLength [1, 1, 1, 0, 0, 0, 9] = 7
   \<and> readInt [1, 1, 1, 0, 0, 0, 9] 3 = Inr 9
   \<and> splice [1, 1, 1, 0, 0, 0, 9] 0 9 = Inl RangeError
   \<and> read_full_length new_SeataTcpBuffer [1, 1, 1, 0, 0, 0, 9] = Throw RangeError
   \<and> receive_body example_prot \<lparr>buff = [1, 1, 1, 0, 0, 0, 9], calls = []\<rparr> = Throw RangeError
   \<and> receive example_prot new_SeataTcpBuffer [1, 1, 1, 0, 0, 0, 9] = Some (Inl RangeError)"
  by (simp add: receive_def receive_loop.simps receive_body_def resolve_magic_def
      read_full_length_def readInt_def splice_def getLength_def writeBytes_def
      example_prot_def new_SeataTcpBuffer_def Let_def)

section \<open>Termination\<close>

text \<open>
  Claim C7 says that \<^verbatim>\<open>receive\<close> terminates for every accumulator and chunk. With seven
  bytes that hold neither marker and a length field of zero, every iteration splices no
  byte, calls the subscriber with an empty buffer and finds the same seven bytes again:
  the loop has no result.
\<close>

theorem receive_zero_length_never_returns:
  "receive example_prot new_SeataTcpBuffer [1, 1, 1, 0, 0, 0, 0] = None"
  unfolding receive_def
  by (rule zero_length_never_returns)
     (simp_all add: example_prot_def new_SeataTcpBuffer_def writeBytes_def getLength_def
        readInt_def)

section \<open>Resynchronization\<close>

text \<open>
  Claim C8. When both markers occur in the accumulator after the chunk has been
  appended, not at offsets 0 and 1, and dropping the prefix that lines 85 to 93 name
  (the bytes before \<open>MAGIC_HIGH\<close> when \<open>MAGIC_LOW\<close> follows it at once, otherwise the bytes
  up to the later of the two indices) would leave fewer than \<open>V1_HEAD_LENGTH\<close> bytes,
  \<^verbatim>\<open>receive\<close> returns without calling the subscriber; no byte is extracted.
\<close>

theorem resync_short_remainder_emits_nothing:
  assumes "highMagicIndex = indexOf (buff s @ data) (MAGIC_HIGH p)"
    and "lowMagicIndex = indexOf (buff s @ data) (MAGIC_LOW p)"
    and "highMagicIndex \<noteq> - 1" and "lowMagicIndex \<noteq> - 1"
    and "highMagicIndex \<noteq> 0 \<or> lowMagicIndex \<noteq> 1"
    and "getLength (buff s @ data)
           - (if lowMagicIndex - highMagicIndex = 1 then highMagicIndex
              else max highMagicIndex lowMagicIndex + 1)
         < int (V1_HEAD_LENGTH p)"
  shows "receive p s data = Some (Inr (s\<lparr>buff := buff s @ data\<rparr>))"
proof -
  from assms(1-4) have "MAGIC_HIGH p \<in> set (buff (s\<lparr>buff := buff s @ data\<rparr>))"
    "MAGIC_LOW p \<in> set (buff (s\<lparr>buff := buff s @ data\<rparr>))"
    by (simp_all add: indexOf_not_found)
  then have "receive_loop p (s\<lparr>buff := buff s @ data\<rparr>) = Some (Inr (s\<lparr>buff := buff s @ data\<rparr>))"
    by (rule receive_loop_both_found)
  then show ?thesis by (simp add: receive_def writeBytes_def)
qed

theorem resync_short_remainder_emits_nothing_witness:
  "(2::int) = indexOf (buff new_SeataTcpBuffer @ [1, 0xBB, 0xDA, 1, 0, 0, 0, 9]) (MAGIC_HIGH distinct_prot)
   \<and> (1::int) = indexOf (buff new_SeataTcpBuffer @ [1, 0xBB, 0xDA, 1, 0, 0, 0, 9]) (MAGIC_LOW distinct_prot)
   \<and> getLength (buff new_SeataTcpBuffer @ [1, 0xBB, 0xDA, 1, 0, 0, 0, 9])
        - (if (1::int) - 2 = 1 then 2 else max 2 1 + 1)
      < int (V1_HEAD_LENGTH distinct_prot)
   \<and> receive distinct_prot new_SeataTcpBuffer [1, 0xBB, 0xDA, 1, 0, 0, 0, 9]
       = Some (Inr \<lparr>buff = [1, 0xBB, 0xDA, 1, 0, 0, 0, 9], calls = []\<rparr>)"
  using resync_short_remainder_emits_nothing
    [where p = distinct_prot and s = new_SeataTcpBuffer and data = "[1, 0xBB, 0xDA, 1, 0, 0, 0, 9]"
       and highMagicIndex = 2 and lowMagicIndex = 1]
  by (simp add: distinct_prot_def new_SeataTcpBuffer_def getLength_def)

text \<open>
  Claim C9 says that when \<open>MAGIC_LOW\<close> first occurs right after the first \<open>MAGIC_HIGH\<close>, and
  \<open>MAGIC_HIGH\<close> is not at offset 0, the bytes before \<open>MAGIC_HIGH\<close> are removed. Here the
  indices are 1 and 2, and \<^verbatim>\<open>receive\<close> returns with the leading byte still in the
  accumulator: with both markers found, line 74 returns before line 86 is reached.
\<close>

theorem adjacent_magic_prefix_not_removed:
  "indexOf [1, 0xDA, 0xBB, 1, 0, 0, 0, 8, 5] (MAGIC_HIGH distinct_prot) = 1
   \<and> indexOf [1, 0xDA, 0xBB, 1, 0, 0, 0, 8, 5] (MAGIC_LOW distinct_prot) = 2
   \<and> receive distinct_prot new_SeataTcpBuffer [1, 0xDA, 0xBB, 1, 0, 0, 0, 8, 5]
       = Some (Inr \<lparr>buff = [1, 0xDA, 0xBB, 1, 0, 0, 0, 8, 5], calls = []\<rparr>)"
  by (simp add: receive_def receive_loop.simps receive_body_def getLength_def
      writeBytes_def distinct_prot_def new_SeataTcpBuffer_def Let_def)

section \<open>The return of line 74\<close>

text \<open>
  Claim C10. Whenever, after the chunk has been appended, both \<open>MAGIC_HIGH\<close> and
  \<open>MAGIC_LOW\<close> occur somewhere in the accumulator, at any positions, \<^verbatim>\<open>receive\<close> returns
  at once: the subscriber is not called and no byte is removed, so the accumulator is
  the previous contents followed by the chunk.
\<close>

theorem receive_returns_when_both_magic_found:
  assumes "MAGIC_HIGH p \<in> set (buff s @ data)" and "MAGIC_LOW p \<in> set (buff s @ data)"
  shows "receive p s data = Some (Inr (s\<lparr>buff := buff s @ data\<rparr>))"
  using assms by (simp add: receive_def writeBytes_def receive_loop_both_found)

theorem receive_returns_when_both_magic_found_witness:
  "MAGIC_HIGH distinct_prot \<in> set (buff \<lparr>buff = [5, 0xBB], calls = [[7]]\<rparr> @ [9, 9, 0xDA, 0, 0, 0, 2])
   \<and> MAGIC_LOW distinct_prot \<in> set (buff \<lparr>buff = [5, 0xBB], calls = [[7]]\<rparr> @ [9, 9, 0xDA, 0, 0, 0, 2])
   \<and> receive distinct_prot \<lparr>buff = [5, 0xBB], calls = [[7]]\<rparr> [9, 9, 0xDA, 0, 0, 0, 2]
       = Some (Inr \<lparr>buff = [5, 0xBB, 9, 9, 0xDA, 0, 0, 0, 2], calls = [[7]]\<rparr>)"
  using receive_returns_when_both_magic_found
    [of distinct_prot "\<lparr>buff = [5, 0xBB], calls = [[7]]\<rparr>" "[9, 9, 0xDA, 0, 0, 0, 2]"]
  by (simp add: distinct_prot_def)

end
